theory Spec2Isabelle
  imports Complex_Main
begin

section \<open>Redis Graphite Publisher: a model of \<open>redis-graphite.py\<close>\<close>

text \<open>
  The program is one Python 2 script. Its \<open>main\<close> function is two nested
  \<open>while True\<close> loops around a \<open>for\<close> loop over the configured redis ports; inside,
  one of two \<open>for\<close> loops sends lines to a carbon socket. Everything the script gets
  from outside (the result of a connect, of \<open>client.info()\<close>, of \<open>client.llen\<close>, of
  \<open>sock.sendall\<close>, the reading of \<open>time.time()\<close>) is an oracle of the environment,
  indexed by the number of calls made so far; everything it does to the outside is an
  event appended to a trace. Logging and the socket timeout have no part in the control
  flow and are left out.
\<close>

subsection \<open>Exceptions and Python values\<close>

datatype exn = ValueError | OverflowError | TypeError | StoreError | SleepError

text \<open>
  A Python float is a double: \<open>Finite m e\<close> stands for \<open>m * 2 ^ e\<close>, \<open>Inf neg\<close> for the
  two infinities and \<open>NaN\<close> for not-a-number.
\<close>

datatype pyfloat = Finite int int | Inf bool | NaN

text \<open>
  A value of the \<open>info\<close> dictionary. The store's interface is specified as a map to
  strings; the client library hands out \<open>int\<close> and \<open>float\<close> objects where the text
  reads as a number, strings otherwise, and other objects (a dictionary) for composite
  fields.
\<close>

datatype pyval = PyInt int | PyFloat pyfloat | PyStr string | PyOther

type_synonym info_map = "string \<Rightarrow> pyval option"

subsection \<open>Strings: \<open>str(int)\<close>, \<open>strip\<close>, \<open>split\<close>, \<open>int(str)\<close>\<close>

definition digit_char :: "nat \<Rightarrow> char" where
  "digit_char d = char_of (48 + d)"

fun str_nat :: "nat \<Rightarrow> string" where
  "str_nat n = (if n < 10 then [digit_char n] else str_nat (n div 10) @ [digit_char (n mod 10)])"

declare str_nat.simps [simp del]

definition str_int :: "int \<Rightarrow> string" where
  "str_int i = (if i < 0 then CHR ''-'' # str_nat (nat (- i)) else str_nat (nat i))"

definition is_space :: "char \<Rightarrow> bool" where
  "is_space c = (c = CHR '' '' \<or> c = CHR 0x09 \<or> c = CHR 0x0A \<or> c = CHR 0x0B
                 \<or> c = CHR 0x0C \<or> c = CHR 0x0D)"

definition strip :: "string \<Rightarrow> string" where
  "strip s = rev (dropWhile is_space (rev (dropWhile is_space s)))"

definition is_digit :: "char \<Rightarrow> bool" where
  "is_digit c = (48 \<le> (of_char c :: nat) \<and> (of_char c :: nat) \<le> 57)"

definition digit_val :: "char \<Rightarrow> nat" where
  "digit_val c = of_char c - 48"

definition digits_val :: "string \<Rightarrow> nat" where
  "digits_val ds = foldl (\<lambda>a c. 10 * a + digit_val c) 0 ds"

text \<open>The sign prefix shared by \<open>int(s)\<close> and \<open>float(s)\<close>: an optional \<open>+\<close> or \<open>-\<close>.\<close>

fun split_sign :: "string \<Rightarrow> bool \<times> string" where
  "split_sign [] = (False, [])"
| "split_sign (c # r) =
     (if c = CHR ''-'' then (True, r) else if c = CHR ''+'' then (False, r) else (False, c # r))"

text \<open>
  \<open>int(s)\<close> on a byte string, as CPython 2 reads it (\<open>PyOS_strtol\<close>): leading
  whitespace, an optional sign, whitespace again, one or more decimal digits, trailing
  whitespace; anything else raises \<open>ValueError\<close>. The result is unbounded (an
  \<open>int\<close> too large is a \<open>long\<close>).
\<close>

definition py_int :: "string \<Rightarrow> exn + int" where
  "py_int s =
     (case split_sign (dropWhile is_space s) of (neg, r) \<Rightarrow>
        let body = dropWhile is_space r;
            ds = takeWhile is_digit body;
            rest = dropWhile is_digit body
        in if ds \<noteq> [] \<and> list_all is_space rest
           then Inr (if neg then - int (digits_val ds) else int (digits_val ds))
           else Inl ValueError)"

text \<open>\<open>s.split(sep)\<close> for a one-character separator: empty fields are kept.\<close>

fun split_on :: "char \<Rightarrow> string \<Rightarrow> string list" where
  "split_on sep [] = [[]]"
| "split_on sep (c # cs) =
     (if c = sep then [] # split_on sep cs
      else (case split_on sep cs of [] \<Rightarrow> [[c]] | x # xs \<Rightarrow> (c # x) # xs))"

subsection \<open>Doubles: \<open>float(s)\<close>, multiplication, \<open>int(float)\<close>\<close>

fun bit_length :: "nat \<Rightarrow> nat" where
  "bit_length n = (if n = 0 then 0 else Suc (bit_length (n div 2)))"

declare bit_length.simps [simp del]

text \<open>Division rounded to the nearest integer, ties to the even one.\<close>

definition div_half_even :: "nat \<Rightarrow> nat \<Rightarrow> nat" where
  "div_half_even a b =
     (let q = a div b; r = a mod b
      in if 2 * r < b then q else if b < 2 * r then q + 1 else if even q then q else q + 1)"

text \<open>\<open>a / b\<close> scaled by \<open>2 ^ (- e)\<close>, as a fraction of naturals.\<close>

definition scaled :: "nat \<Rightarrow> nat \<Rightarrow> int \<Rightarrow> nat \<times> nat" where
  "scaled a b e = (if 0 \<le> e then (a, b * 2 ^ nat e) else (a * 2 ^ nat (- e), b))"

text \<open>
  The double nearest to \<open>(-1)^neg * a / b\<close> (for \<open>b > 0\<close>), round-half-even on a 53-bit
  significand, with the subnormal range (exponent no less than \<open>-1074\<close>) and overflow
  to infinity.
\<close>

definition to_double :: "bool \<Rightarrow> nat \<Rightarrow> nat \<Rightarrow> pyfloat" where
  "to_double neg a b =
     (if a = 0 then Finite 0 0
      else
        let e0 = int (bit_length a) - int (bit_length b) - 53;
            e1 = (case scaled a b e0 of (x, y) \<Rightarrow> if y * 2 ^ 53 \<le> x then e0 + 1 else e0);
            e = max e1 (- 1074);
            m = (case scaled a b e of (x, y) \<Rightarrow> div_half_even x y)
        in if 971 < e \<or> (e = 971 \<and> 2 ^ 53 \<le> m) then Inf neg
           else Finite (if neg then - int m else int m) e)"

text \<open>The double nearest to \<open>m * 2 ^ e\<close>.\<close>

definition round_dyadic :: "int \<Rightarrow> int \<Rightarrow> pyfloat" where
  "round_dyadic m e =
     (if 0 \<le> e then to_double (m < 0) (nat \<bar>m\<bar> * 2 ^ nat e) 1
      else to_double (m < 0) (nat \<bar>m\<bar>) (2 ^ nat (- e)))"

fun float_mul :: "pyfloat \<Rightarrow> pyfloat \<Rightarrow> pyfloat" where
  "float_mul (Finite m e) (Finite n f) = round_dyadic (m * n) (e + f)"
| "float_mul NaN _ = NaN"
| "float_mul _ NaN = NaN"
| "float_mul (Inf s) (Finite n f) = (if n = 0 then NaN else Inf (s \<noteq> (n < 0)))"
| "float_mul (Finite m e) (Inf s) = (if m = 0 then NaN else Inf (s \<noteq> (m < 0)))"
| "float_mul (Inf s) (Inf t) = Inf (s \<noteq> t)"

text \<open>\<open>int(x)\<close> on a float truncates toward zero; it raises on infinities and NaN.\<close>

definition trunc_dyadic :: "int \<Rightarrow> int \<Rightarrow> int" where
  "trunc_dyadic m e = (if 0 \<le> e then m * 2 ^ nat e else sgn m * (\<bar>m\<bar> div 2 ^ nat (- e)))"

fun int_of_float :: "pyfloat \<Rightarrow> exn + int" where
  "int_of_float (Finite m e) = Inr (trunc_dyadic m e)"
| "int_of_float (Inf s) = Inl OverflowError"
| "int_of_float NaN = Inl ValueError"

definition lower_char :: "char \<Rightarrow> char" where
  "lower_char c =
     (if 65 \<le> (of_char c :: nat) \<and> (of_char c :: nat) \<le> 90 then char_of ((of_char c :: nat) + 32)
      else c)"

text \<open>The exponent part of a float literal: empty, or \<open>e\<close>/\<open>E\<close>, an optional sign, digits.\<close>

definition parse_exponent :: "string \<Rightarrow> int option" where
  "parse_exponent s =
     (case s of
        [] \<Rightarrow> Some 0
      | c # r \<Rightarrow>
          if lower_char c = CHR ''e'' then
            (case split_sign r of (neg, ds) \<Rightarrow>
               if ds \<noteq> [] \<and> list_all is_digit ds
               then Some (if neg then - int (digits_val ds) else int (digits_val ds))
               else None)
          else None)"

text \<open>
  \<open>float(s)\<close> on a byte string: surrounding whitespace is dropped; after an optional
  sign come \<open>inf\<close>, \<open>infinity\<close> or \<open>nan\<close> in any case, or decimal digits with an
  optional point and an optional exponent, at least one digit before or after the
  point. The decimal value is rounded to the nearest double.
\<close>

definition py_float :: "string \<Rightarrow> exn + pyfloat" where
  "py_float s =
     (case split_sign (strip s) of (neg, body) \<Rightarrow>
        let low = map lower_char body in
        if low = ''inf'' \<or> low = ''infinity'' then Inr (Inf neg)
        else if low = ''nan'' then Inr NaN
        else
          let ip = takeWhile is_digit body;
              r1 = dropWhile is_digit body;
              has_point = (r1 \<noteq> [] \<and> hd r1 = CHR ''.'');
              r2 = (if has_point then tl r1 else r1);
              fp = (if has_point then takeWhile is_digit r2 else []);
              r3 = (if has_point then dropWhile is_digit r2 else r2)
          in if ip = [] \<and> fp = [] then Inl ValueError
             else (case parse_exponent r3 of
                     None \<Rightarrow> Inl ValueError
                   | Some x \<Rightarrow>
                       let d = digits_val (ip @ fp); p = x - int (length fp)
                       in Inr (if 0 \<le> p then to_double neg (d * 10 ^ nat p) 1
                               else to_double neg d (10 ^ nat (- p)))))"

text \<open>
  The builtins \<open>int(x)\<close> and \<open>float(x)\<close> on a value: an \<open>int\<close> is kept, or converted
  to the nearest double (\<open>OverflowError\<close> when it is too large); a \<open>float\<close> is
  truncated, or kept; a string is parsed; any other object raises \<open>TypeError\<close>.
\<close>

fun py_int_of :: "pyval \<Rightarrow> exn + int" where
  "py_int_of (PyInt i) = Inr i"
| "py_int_of (PyFloat f) = int_of_float f"
| "py_int_of (PyStr s) = py_int s"
| "py_int_of PyOther = Inl TypeError"

fun py_float_of :: "pyval \<Rightarrow> exn + pyfloat" where
  "py_float_of (PyInt i) =
     (case round_dyadic i 0 of Inf s \<Rightarrow> Inl OverflowError | f \<Rightarrow> Inr f)"
| "py_float_of (PyFloat f) = Inr f"
| "py_float_of (PyStr s) = py_float s"
| "py_float_of PyOther = Inl TypeError"

subsection \<open>The table \<open>stats_keys\<close>\<close>

text \<open>
  The second component of an entry is the callable applied to \<open>info[key]\<close>: the
  builtin \<open>int\<close>, or \<open>lambda x: int(float(x) * 100)\<close>.
\<close>

datatype keytype = Py_int | Scaled_ratio

fun apply_keytype :: "keytype \<Rightarrow> pyval \<Rightarrow> exn + int" where
  "apply_keytype Py_int x = py_int_of x"
| "apply_keytype Scaled_ratio x =
     (case py_float_of x of
        Inl e \<Rightarrow> Inl e
      | Inr f \<Rightarrow> int_of_float (float_mul f (Finite 100 0)))"

definition stats_keys :: "(string \<times> keytype) list" where
  "stats_keys =
     [(''connected_clients'', Py_int),
      (''client_longest_output_list'', Py_int),
      (''client_biggest_input_buf'', Py_int),
      (''blocked_clients'', Py_int),
      (''used_memory'', Py_int),
      (''used_memory_rss'', Py_int),
      (''used_memory_peak'', Py_int),
      (''used_memory_lua'', Py_int),
      (''mem_fragmentation_ratio'', Scaled_ratio),
      (''rdb_bgsave_in_progress'', Py_int),
      (''aof_rewrite_in_progress'', Py_int),
      (''aof_base_size'', Py_int),
      (''aof_current_size'', Py_int),
      (''total_connections_received'', Py_int),
      (''total_commands_processed'', Py_int)]"

subsection \<open>Command line, environment, trace\<close>

text \<open>
  The parsed arguments, after \<open>main\<close> has wrapped a single port into a list.
  \<open>lists_opt\<close> is \<open>args.lists\<close>: \<open>None\<close> when the option is absent.
\<close>

record args =
  redis_server :: string
  redis_ports :: "int list"
  carbon_server :: string
  carbon_port :: int
  no_server_stats :: bool
  lists_opt :: "string list option"
  once :: bool
  interval :: int

text \<open>
  The environment answers the \<open>k\<close>-th call of each kind. \<open>fetch_info\<close> is
  \<open>Redis(host, port)\<close> followed by \<open>client.info()\<close> and \<open>fetch_llen\<close> is
  \<open>client.llen(key)\<close>: \<open>None\<close> when an exception is raised. \<open>wall_clock\<close> is
  \<open>time.time()\<close>, a finite double \<open>m * 2 ^ e\<close> given as \<open>(m, e)\<close>. \<open>max_sleep\<close> is the
  largest number of seconds that \<open>time.sleep\<close> takes on the platform.
\<close>

record env =
  connect_ok :: "nat \<Rightarrow> bool"
  fetch_info :: "nat \<Rightarrow> string \<Rightarrow> int \<Rightarrow> info_map option"
  fetch_llen :: "nat \<Rightarrow> string \<Rightarrow> int \<Rightarrow> string \<Rightarrow> int option"
  send_ok :: "nat \<Rightarrow> string \<Rightarrow> bool"
  wall_clock :: "nat \<Rightarrow> int \<times> int"
  max_sleep :: int

datatype event =
    Connect string int bool
  | Send string bool
  | Close
  | Sleep int

text \<open>The number of calls made so far to each oracle, and what the process has done.\<close>

record world =
  connects :: nat
  infos :: nat
  llens :: nat
  sends :: nat
  clocks :: nat
  trace :: "event list"

subsection \<open>Formatting a line and sending it\<close>

text \<open>\<open>"redis.{}:{}.".format(args.redis_server, redis_port)\<close>\<close>

definition base_key :: "string \<Rightarrow> int \<Rightarrow> string" where
  "base_key host port = ''redis.'' @ host @ '':'' @ str_int port @ ''.''"

text \<open>\<open>"{} {} {}\n".format(path, value, timestamp)\<close>\<close>

definition format_cmd :: "string \<Rightarrow> int \<Rightarrow> int \<Rightarrow> string" where
  "format_cmd path v ts = path @ '' '' @ str_int v @ '' '' @ str_int ts @ [CHR 0x0A]"

text \<open>\<open>int(time.time())\<close> at the \<open>k\<close>-th reading of the clock.\<close>

definition clock_secs :: "env \<Rightarrow> nat \<Rightarrow> int" where
  "clock_secs env k = (case wall_clock env k of (m, e) \<Rightarrow> trunc_dyadic m e)"

text \<open>
  Lines 116 to 121 and 131 to 136: read the clock, format the line, call
  \<open>sock.sendall\<close> under a catch-all handler. The result tells whether the send
  succeeded.
\<close>

definition send_cmd :: "env \<Rightarrow> string \<Rightarrow> int \<Rightarrow> world \<Rightarrow> bool \<times> world" where
  "send_cmd env path v w =
     (let ts = clock_secs env (clocks w);
          cmd = format_cmd path v ts;
          ok = send_ok env (sends w) cmd
      in (ok, w\<lparr>sends := Suc (sends w), clocks := Suc (clocks w),
                 trace := trace w @ [Send cmd ok]\<rparr>))"

subsection \<open>The two sampling loops\<close>

datatype loop_result = Exhausted | Broke | Raised exn

text \<open>
  Lines 110 to 121, \<open>for key, keytype in stats_keys\<close>: a key absent from \<open>info\<close> is
  skipped; \<open>keytype(info[key])\<close> stands outside any handler; a failed send breaks
  the loop.
\<close>

fun stats_loop ::
  "env \<Rightarrow> string \<Rightarrow> info_map \<Rightarrow> (string \<times> keytype) list \<Rightarrow> world
     \<Rightarrow> loop_result \<times> world" where
  "stats_loop env bk info [] w = (Exhausted, w)"
| "stats_loop env bk info ((key, kt) # rest) w =
     (case info key of
        None \<Rightarrow> stats_loop env bk info rest w
      | Some raw \<Rightarrow>
          (case apply_keytype kt raw of
             Inl e \<Rightarrow> (Raised e, w)
           | Inr v \<Rightarrow>
               (case send_cmd env (bk @ key) v w of
                  (True, w') \<Rightarrow> stats_loop env bk info rest w'
                | (False, w') \<Rightarrow> (Broke, w'))))"

text \<open>
  Lines 128 to 136, \<open>for key in args.lists\<close>: \<open>client.llen(key)\<close> stands outside any
  handler; the path sent is \<open>base_key + key\<close>.
\<close>

fun lists_loop ::
  "env \<Rightarrow> string \<Rightarrow> int \<Rightarrow> string \<Rightarrow> string list \<Rightarrow> world \<Rightarrow> loop_result \<times> world" where
  "lists_loop env host port bk [] w = (Exhausted, w)"
| "lists_loop env host port bk (key # rest) w =
     (case fetch_llen env (llens w) host port key of
        None \<Rightarrow> (Raised StoreError, w\<lparr>llens := Suc (llens w)\<rparr>)
      | Some len \<Rightarrow>
          (case send_cmd env (bk @ key) len (w\<lparr>llens := Suc (llens w)\<rparr>) of
             (True, w') \<Rightarrow> lists_loop env host port bk rest w'
           | (False, w') \<Rightarrow> (Broke, w')))"

subsection \<open>One target, one pass over the targets\<close>

text \<open>
  What the body of \<open>for redis_port in args.redis_ports\<close> does to that loop: go on with
  the next port, break out of the loop, or die of an uncaught exception.
\<close>

datatype target_result = Next_port | Break_ports | Uncaught exn

fun after_loop :: "loop_result \<Rightarrow> target_result" where
  "after_loop Exhausted = Next_port"
| "after_loop Broke = Break_ports"
| "after_loop (Raised e) = Uncaught e"

text \<open>\<open>if args.lists\<close>: \<open>None\<close> and the empty list are false.\<close>

fun truthy :: "string list option \<Rightarrow> bool" where
  "truthy None = False"
| "truthy (Some ls) = (ls \<noteq> [])"

text \<open>The names iterated by \<open>for key in args.lists\<close>, reached only when \<open>args.lists\<close> is true.\<close>

fun watched :: "string list option \<Rightarrow> string list" where
  "watched None = []"
| "watched (Some ls) = ls"

text \<open>
  Lines 97 to 139. A failed \<open>info\<close> continues with the next port. With server stats
  on, the \<open>else\<close> clause of the stats loop continues and the statement after it
  breaks, so the \<open>if args.lists\<close> block is reached only when \<open>no_server_stats\<close> is
  set. \<open>lists_key\<close> is assigned there and not used.
\<close>

definition target_body :: "env \<Rightarrow> args \<Rightarrow> int \<Rightarrow> world \<Rightarrow> target_result \<times> world" where
  "target_body env a port w =
     (let bk = base_key (redis_server a) port;
          w1 = w\<lparr>infos := Suc (infos w)\<rparr>
      in case fetch_info env (infos w) (redis_server a) port of
           None \<Rightarrow> (Next_port, w1)
         | Some info \<Rightarrow>
             if \<not> no_server_stats a then
               (case stats_loop env bk info stats_keys w1 of (r, w2) \<Rightarrow> (after_loop r, w2))
             else if truthy (lists_opt a) then
               (let lists_key = bk @ ''list.''
                in case lists_loop env (redis_server a) port bk (watched (lists_opt a)) w1 of
                     (r, w2) \<Rightarrow> (after_loop r, w2))
             else (Next_port, w1))"

fun ports_loop :: "env \<Rightarrow> args \<Rightarrow> int list \<Rightarrow> world \<Rightarrow> loop_result \<times> world" where
  "ports_loop env a [] w = (Exhausted, w)"
| "ports_loop env a (port # rest) w =
     (case target_body env a port w of
        (Next_port, w') \<Rightarrow> ports_loop env a rest w'
      | (Break_ports, w') \<Rightarrow> (Broke, w')
      | (Uncaught e, w') \<Rightarrow> (Raised e, w'))"

subsection \<open>The two \<open>while True\<close> loops\<close>

text \<open>
  \<open>time.sleep(secs)\<close> raises on a negative argument and on one that is too large for
  the platform; \<open>--interval\<close> takes any integer.
\<close>

definition sleep :: "env \<Rightarrow> int \<Rightarrow> world \<Rightarrow> exn + world" where
  "sleep env secs w =
     (if secs < 0 \<or> max_sleep env < secs then Inl SleepError
      else Inr (w\<lparr>trace := trace w @ [Sleep secs]\<rparr>))"

text \<open>
  How a block of statements inside a \<open>while\<close> body ends: \<open>continue\<close>, \<open>break\<close>, falling
  through to the next statement, or an uncaught exception.
\<close>

datatype signal = Sig_continue | Sig_break | Sig_fallthrough | Sig_raise exn

text \<open>
  Lines 96 to 145, the \<open>for\<close> statement with its \<open>else\<close> clause and the \<open>break\<close> after
  it: the \<open>else\<close> clause sleeps and continues the inner \<open>while\<close>; when the \<open>for\<close>
  loop was broken, the \<open>break\<close> on line 145 leaves the inner \<open>while\<close>.
\<close>

definition for_else_block :: "env \<Rightarrow> args \<Rightarrow> world \<Rightarrow> signal \<times> world" where
  "for_else_block env a w =
     (case ports_loop env a (redis_ports a) w of
        (Exhausted, w') \<Rightarrow>
          (case sleep env (interval a) w' of
             Inl e \<Rightarrow> (Sig_raise e, w')
           | Inr w'' \<Rightarrow> (Sig_continue, w''))
      | (Broke, w') \<Rightarrow> (Sig_break, w')
      | (Raised e, w') \<Rightarrow> (Sig_raise e, w'))"

datatype pstate = Disconnected | Connected_Polling | Exited | Crashed exn

text \<open>
  Lines 95 to 153, one round of the inner \<open>while True\<close>: the block above, then
  \<open>if args.once: sys.exit()\<close> on lines 147 and 148 when the block falls through.
  Leaving the loop closes the socket (any error of \<open>close\<close> is passed over) and
  returns to the head of the outer loop.
\<close>

definition polling_round :: "env \<Rightarrow> args \<Rightarrow> world \<Rightarrow> pstate \<times> world" where
  "polling_round env a w =
     (case for_else_block env a w of
        (Sig_continue, w') \<Rightarrow> (Connected_Polling, w')
      | (Sig_break, w') \<Rightarrow> (Disconnected, w'\<lparr>trace := trace w' @ [Close]\<rparr>)
      | (Sig_raise e, w') \<Rightarrow> (Crashed e, w')
      | (Sig_fallthrough, w') \<Rightarrow> (if once a then Exited else Connected_Polling, w'))"

text \<open>
  Lines 86 to 93, the head of the outer \<open>while True\<close>: a new socket and a connect; on
  failure sleep two seconds and try again.
\<close>

definition connect_round :: "env \<Rightarrow> args \<Rightarrow> world \<Rightarrow> pstate \<times> world" where
  "connect_round env a w =
     (let ok = connect_ok env (connects w);
          w1 = w\<lparr>connects := Suc (connects w),
                 trace := trace w @ [Connect (carbon_server a) (carbon_port a) ok]\<rparr>
      in if ok then (Connected_Polling, w1)
         else (case sleep env 2 w1 of Inl e \<Rightarrow> (Crashed e, w1) | Inr w2 \<Rightarrow> (Disconnected, w2)))"

fun main_step :: "env \<Rightarrow> args \<Rightarrow> pstate \<times> world \<Rightarrow> pstate \<times> world" where
  "main_step env a (Disconnected, w) = connect_round env a w"
| "main_step env a (Connected_Polling, w) = polling_round env a w"
| "main_step env a (Exited, w) = (Exited, w)"
| "main_step env a (Crashed e, w) = (Crashed e, w)"

text \<open>
  \<open>main\<close> for a bounded number of rounds of its loops: the process starts with no
  connection and nothing done.
\<close>

definition world0 :: world where
  "world0 = \<lparr>connects = 0, infos = 0, llens = 0, sends = 0, clocks = 0, trace = []\<rparr>"

fun main_run :: "nat \<Rightarrow> env \<Rightarrow> args \<Rightarrow> pstate \<times> world \<Rightarrow> pstate \<times> world" where
  "main_run 0 env a s = s"
| "main_run (Suc n) env a s = main_run n env a (main_step env a s)"

definition main :: "nat \<Rightarrow> env \<Rightarrow> args \<Rightarrow> pstate \<times> world" where
  "main n env a = main_run n env a (Disconnected, world0)"

text \<open>
  The reader's side of the line protocol, as the specification words it: the line is
  split on spaces into three fields and the numeric fields are read back as integers.
  The script itself never parses a line.
\<close>

definition parse_line :: "string \<Rightarrow> (string \<times> int \<times> int) option" where
  "parse_line l =
     (case split_on (CHR '' '') l of
        [p, v, t] \<Rightarrow>
          (case (py_int v, py_int t) of
             (Inr v', Inr t') \<Rightarrow> Some (p, v', t')
           | _ \<Rightarrow> None)
      | _ \<Rightarrow> None)"

subsection \<open>Predicates on traces\<close>

fun is_ok_send :: "event \<Rightarrow> bool" where
  "is_ok_send (Send l ok) = ok"
| "is_ok_send _ = False"

fun is_failed_send :: "event \<Rightarrow> bool" where
  "is_failed_send (Send l ok) = (\<not> ok)"
| "is_failed_send _ = False"

text \<open>
  What a loop may have appended to the trace, by the way it ended: a broken loop has
  sent lines successfully and then one line unsuccessfully, last; any other ending
  has only successful sends behind it.
\<close>

fun tick_shape :: "loop_result \<Rightarrow> event list \<Rightarrow> bool" where
  "tick_shape Broke evs =
     (evs \<noteq> [] \<and> list_all is_ok_send (butlast evs) \<and> is_failed_send (last evs))"
| "tick_shape Exhausted evs = list_all is_ok_send evs"
| "tick_shape (Raised e) evs = list_all is_ok_send evs"

text \<open>
  Each event of the list is a send of a formatted line whose timestamp is the clock
  reading of its own position, starting from reading \<open>k\<close>.
\<close>

fun stamped :: "env \<Rightarrow> nat \<Rightarrow> event list \<Rightarrow> bool" where
  "stamped env k [] = True"
| "stamped env k (ev # evs) =
     ((\<exists>path v ok. ev = Send (format_cmd path v (clock_secs env k)) ok) \<and> stamped env (Suc k) evs)"

text \<open>
  What a loop has done between two worlds: it has appended \<open>evs\<close>, with one clock
  reading and one send for each event, and has left the connect count alone.
\<close>

definition appended :: "env \<Rightarrow> loop_result \<Rightarrow> world \<Rightarrow> world \<Rightarrow> event list \<Rightarrow> bool" where
  "appended env r w w' evs =
     (trace w' = trace w @ evs \<and> sends w' = sends w + length evs \<and>
      clocks w' = clocks w + length evs \<and> connects w' = connects w \<and>
      tick_shape r evs \<and> stamped env (clocks w) evs)"

text \<open>
  The callable of a table entry accepts the value that \<open>info\<close> holds under the entry's
  key, if it holds one; \<open>coercible\<close> says so for every entry of \<open>stats_keys\<close>.
\<close>

definition accepts :: "info_map \<Rightarrow> string \<times> keytype \<Rightarrow> bool" where
  "accepts info spec =
     (case spec of (key, kt) \<Rightarrow>
        (case info key of
           None \<Rightarrow> True
         | Some raw \<Rightarrow> (case apply_keytype kt raw of Inl e \<Rightarrow> False | Inr v \<Rightarrow> True)))"

definition coercible :: "info_map \<Rightarrow> bool" where
  "coercible info = list_all (accepts info) stats_keys"

subsection \<open>What a double stands for\<close>



subsection \<open>Samples\<close>

text \<open>
  A sample is a metric path and a value. \<open>stamp\<close> is what sending a list of samples
  leaves in the trace when the sink takes every line: one line for each, with the
  clock reading of its position, counted from reading \<open>k\<close>.
\<close>

type_synonym sample = "string \<times> int"

fun stamp :: "env \<Rightarrow> nat \<Rightarrow> sample list \<Rightarrow> event list" where
  "stamp env k [] = []"
| "stamp env k ((path, v) # rest) =
     Send (format_cmd path v (clock_secs env k)) True # stamp env (Suc k) rest"

text \<open>
  The full set of health samples of a target with the map \<open>info\<close>: in the order of the
  table, one sample for each entry whose key the map holds, with the coerced value.
\<close>

definition stats_samples :: "string \<Rightarrow> info_map \<Rightarrow> (string \<times> keytype) list \<Rightarrow> sample list" where
  "stats_samples bk info specs =
     concat (map (\<lambda>(key, kt). case info key of
                                  None \<Rightarrow> []
                                | Some raw \<Rightarrow>
                                    (case apply_keytype kt raw of
                                       Inl e \<Rightarrow> []
                                     | Inr v \<Rightarrow> [(bk @ key, v)]))
               specs)"





subsection \<open>Example configurations and environments\<close>

text \<open>
  A store host \<open>h\<close> with three ports, of which port 1 never answers; the others answer
  \<open>info\<close> with two of the fifteen keys of the table. The sink accepts every connect and
  every line, and the clock advances by one second per reading from 100.5.
\<close>

definition info_ex :: info_map where
  "info_ex = [''connected_clients'' \<mapsto> PyStr ''3'', ''used_memory'' \<mapsto> PyInt 7]"

definition args_ex :: args where
  "args_ex = \<lparr>redis_server = ''h'', redis_ports = [1, 2, 3], carbon_server = ''c'',
     carbon_port = 2003, no_server_stats = False, lists_opt = Some [''q''], once = True,
     interval = 10\<rparr>"

definition env_ex :: env where
  "env_ex = \<lparr>connect_ok = (\<lambda>k. True),
     fetch_info = (\<lambda>k host port. if port = 1 then None else Some info_ex),
     fetch_llen = (\<lambda>k host port key. Some 5),
     send_ok = (\<lambda>k l. True),
     wall_clock = (\<lambda>k. (2 * int k + 201, - 1)),
     max_sleep = 1000000\<rparr>"

text \<open>The same, with the second line sent refused by the sink.\<close>

definition env_drop :: env where
  "env_drop = env_ex\<lparr>send_ok := (\<lambda>k l. k \<noteq> 1)\<rparr>"

text \<open>The same, with the first connect refused as well.\<close>

definition env_flaky :: env where
  "env_flaky = env_ex\<lparr>connect_ok := (\<lambda>k. k \<noteq> 0), send_ok := (\<lambda>k l. k \<noteq> 1)\<rparr>"

text \<open>A store that reports \<open>mem_fragmentation_ratio:nan\<close>, and one whose \<open>llen\<close> raises.\<close>

definition info_nan :: info_map where
  "info_nan = [''connected_clients'' \<mapsto> PyStr ''3'', ''mem_fragmentation_ratio'' \<mapsto> PyStr ''nan'']"

definition env_nan :: env where
  "env_nan = env_ex\<lparr>fetch_info := (\<lambda>k host port. Some info_nan)\<rparr>"

definition env_llen :: env where
  "env_llen = env_ex\<lparr>fetch_llen := (\<lambda>k host port key. None)\<rparr>"

text \<open>The arguments of \<open>--no-server-stats --lists q\<close>.\<close>

definition args_lists :: args where
  "args_lists = args_ex\<lparr>no_server_stats := True\<rparr>"

section \<open>Decimal rendering and reading\<close>

lemma digit_char_table:
  "digit_char 0 = CHR ''0''" "digit_char (Suc 0) = CHR ''1''" "digit_char 1 = CHR ''1''"
  "digit_char 2 = CHR ''2''" "digit_char 3 = CHR ''3''" "digit_char 4 = CHR ''4''"
  "digit_char 5 = CHR ''5''" "digit_char 6 = CHR ''6''" "digit_char 7 = CHR ''7''"
  "digit_char 8 = CHR ''8''" "digit_char 9 = CHR ''9''"
  by code_simp+

lemma str_nat_numeral:
  "str_nat (numeral k) =
     (if (numeral k :: nat) < 10 then [digit_char (numeral k)]
      else str_nat (numeral k div 10) @ [digit_char (numeral k mod 10)])"
  by (rule str_nat.simps)

lemma str_nat_small: "str_nat 0 = ''0''" "str_nat 1 = ''1''" "str_nat (Suc 0) = ''1''"
  by (simp_all add: str_nat.simps [of 0] str_nat.simps [of 1] str_nat.simps [of "Suc 0"]
      digit_char_table)

lemmas str_eval = str_int_def str_nat_numeral str_nat_small digit_char_table

lemma is_digit_digit_char: "d < 10 \<Longrightarrow> is_digit (digit_char d)"
  by (simp add: is_digit_def digit_char_def)

lemma digit_val_digit_char: "d < 10 \<Longrightarrow> digit_val (digit_char d) = d"
  by (simp add: digit_val_def digit_char_def)

lemma is_digit_not_space: "is_digit c \<Longrightarrow> \<not> is_space c"
  by (auto simp: is_digit_def is_space_def)

lemma str_nat_digits: "list_all is_digit (str_nat n)"
proof (induction n rule: str_nat.induct)
  case (1 n)
  show ?case
  proof (cases "n < 10")
    case True
    then show ?thesis by (simp add: str_nat.simps [of n] is_digit_digit_char)
  next
    case False
    with 1 show ?thesis by (simp add: str_nat.simps [of n] is_digit_digit_char)
  qed
qed

lemma str_nat_nonempty: "str_nat n \<noteq> []"
  by (simp add: str_nat.simps [of n])

lemma digits_val_snoc: "digits_val (ds @ [c]) = 10 * digits_val ds + digit_val c"
  by (simp add: digits_val_def)

lemma digits_val_str_nat: "digits_val (str_nat n) = n"
proof (induction n rule: str_nat.induct)
  case (1 n)
  show ?case
  proof (cases "n < 10")
    case True
    then show ?thesis by (simp add: str_nat.simps [of n] digits_val_def digit_val_digit_char)
  next
    case False
    with 1 show ?thesis
      by (simp add: str_nat.simps [of n] digits_val_snoc digit_val_digit_char)
  qed
qed

lemma digits_hd: "ds \<noteq> [] \<Longrightarrow> list_all is_digit ds \<Longrightarrow> is_digit (hd ds)"
  by (cases ds) simp_all

lemma digits_prefix:
  assumes "ds \<noteq> []" "list_all is_digit ds" "list_all is_space rest"
  shows "dropWhile is_space (ds @ rest) = ds @ rest"
    and "takeWhile is_digit (ds @ rest) = ds"
    and "dropWhile is_digit (ds @ rest) = rest"
proof -
  from assms(1, 2) have "\<not> is_space (hd ds)" by (intro is_digit_not_space digits_hd)
  with assms(1) show "dropWhile is_space (ds @ rest) = ds @ rest" by (cases ds) simp_all
  from assms(3) have none: "\<forall>c\<in>set rest. \<not> is_digit c"
    by (auto simp: list_all_iff dest: is_digit_not_space)
  from assms(2) have all: "\<forall>c\<in>set ds. is_digit c" by (simp add: list_all_iff)
  from none have "takeWhile is_digit rest = []" "dropWhile is_digit rest = rest"
    by (cases rest; simp)+
  with all show "takeWhile is_digit (ds @ rest) = ds" "dropWhile is_digit (ds @ rest) = rest"
    by (simp_all add: takeWhile_append2 dropWhile_append2)
qed

lemma split_sign_digits:
  assumes "ds \<noteq> []" "list_all is_digit ds"
  shows "split_sign (ds @ rest) = (False, ds @ rest)"
proof -
  from assms have "is_digit (hd ds)" by (rule digits_hd)
  then have "hd ds \<noteq> CHR ''-''" "hd ds \<noteq> CHR ''+''" by (auto simp: is_digit_def)
  with assms(1) show ?thesis by (cases ds) simp_all
qed

lemma py_int_digits:
  assumes "ds \<noteq> []" "list_all is_digit ds" "list_all is_space rest"
  shows "py_int (ds @ rest) = Inr (int (digits_val ds))"
    and "py_int (CHR ''-'' # ds @ rest) = Inr (- int (digits_val ds))"
proof -
  note pre = digits_prefix [OF assms]
  show "py_int (ds @ rest) = Inr (int (digits_val ds))"
    by (simp add: py_int_def Let_def pre split_sign_digits [OF assms(1, 2)] assms)
  have "dropWhile is_space (CHR ''-'' # ds @ rest) = CHR ''-'' # ds @ rest"
    by (simp add: is_space_def)
  then show "py_int (CHR ''-'' # ds @ rest) = Inr (- int (digits_val ds))"
    by (simp add: py_int_def Let_def pre assms)
qed

lemma py_int_str_int_padded:
  assumes "list_all is_space rest"
  shows "py_int (str_int v @ rest) = Inr v"
proof (cases "v < 0")
  case True
  with py_int_digits(2) [OF str_nat_nonempty str_nat_digits assms, of "nat (- v)"]
  show ?thesis by (simp add: str_int_def digits_val_str_nat)
next
  case False
  with py_int_digits(1) [OF str_nat_nonempty str_nat_digits assms, of "nat v"]
  show ?thesis by (simp add: str_int_def digits_val_str_nat)
qed

lemma py_int_str_int: "py_int (str_int v) = Inr v"
  using py_int_str_int_padded [of "[]" v] by simp

lemma py_int_str_int_newline: "py_int (str_int v @ [CHR 0x0A]) = Inr v"
  by (rule py_int_str_int_padded) (simp add: is_space_def)

lemma split_on_no_sep: "sep \<notin> set p \<Longrightarrow> split_on sep p = [p]"
  by (induction p) auto

lemma split_on_field: "sep \<notin> set p \<Longrightarrow> split_on sep (p @ sep # r) = p # split_on sep r"
  by (induction p) auto

lemma str_nat_no_space: "CHR '' '' \<notin> set (str_nat n)"
proof
  assume "CHR '' '' \<in> set (str_nat n)"
  with str_nat_digits [of n] have "is_digit (CHR '' '')" by (simp add: list_all_iff)
  then show False by (simp add: is_digit_def)
qed

lemma str_int_no_space: "CHR '' '' \<notin> set (str_int v)"
  by (simp add: str_int_def str_nat_no_space)

lemma is_digit_cases: "is_digit c \<Longrightarrow> c \<in> set ''0123456789''"
proof -
  assume d: "is_digit c"
  define n where "n = (of_char c :: nat) - 48"
  from d have n: "n < 10" and c: "c = digit_char n"
    by (auto simp: n_def is_digit_def digit_char_def)
  from n have "n \<in> {0, 1, 2, 3, 4, 5, 6, 7, 8, 9}" by auto
  with c show ?thesis by (auto simp: digit_char_table)
qed

lemma str_int_chars: "set (str_int v) \<subseteq> set ''-0123456789''"
proof
  fix c
  assume "c \<in> set (str_int v)"
  then have "c = CHR ''-'' \<or> c \<in> set (str_nat (nat (- v))) \<or> c \<in> set (str_nat (nat v))"
    by (auto simp: str_int_def split: if_splits)
  with str_nat_digits [of "nat (- v)"] str_nat_digits [of "nat v"]
  have "c = CHR ''-'' \<or> is_digit c" by (auto simp: list_all_iff)
  with is_digit_cases [of c] show "c \<in> set ''-0123456789''" by auto
qed

section \<open>The line format\<close>

text \<open>
  C8, as amended. For a path without a space character, the line is the path, the value
  and the timestamp in decimal (digits and a minus sign only), separated by single
  spaces and ended by a newline; splitting it on spaces gives exactly these three fields, and reading them back gives
  the path, the value and the timestamp. (A path with a space is split in two: see the
  counterexample below.)
\<close>

theorem format_cmd_roundtrip:
  "CHR '' '' \<notin> set path \<Longrightarrow>
     format_cmd path v ts = path @ '' '' @ str_int v @ '' '' @ str_int ts @ [CHR 0x0A] \<and>
     set (str_int v) \<subseteq> set ''-0123456789'' \<and>
     split_on (CHR '' '') (format_cmd path v ts) = [path, str_int v, str_int ts @ [CHR 0x0A]] \<and>
     parse_line (format_cmd path v ts) = Some (path, v, ts)"
  using str_int_chars [of v]
  by (simp add: format_cmd_def parse_line_def split_on_field split_on_no_sep str_int_no_space
      py_int_str_int py_int_str_int_newline)

theorem format_cmd_roundtrip_witness:
  "CHR '' '' \<notin> set ''redis.h:1.k'' \<and>
   parse_line (format_cmd ''redis.h:1.k'' 1024 1700000000) = Some (''redis.h:1.k'', 1024, 1700000000)"
proof -
  have h: "CHR '' '' \<notin> set ''redis.h:1.k''" by simp
  from format_cmd_roundtrip [OF h, of 1024 1700000000] h show ?thesis by blast
qed

text \<open>
  A list name with a space in it, as \<open>--lists "my queue"\<close> gives, makes a line of four
  fields: read back, it is not the triple that was written.
\<close>

theorem format_cmd_space_counterexample:
  "parse_line (format_cmd ''redis.h:1.my queue'' 5 1700000000)
     \<noteq> Some (''redis.h:1.my queue'', 5, 1700000000)"
  by (simp add: parse_line_def format_cmd_def str_eval)

section \<open>The coercion of \<open>mem_fragmentation_ratio\<close>\<close>

lemma bit_length_numeral:
  "bit_length (numeral k) = Suc (bit_length (numeral k div 2))"
  by (simp add: bit_length.simps [of "numeral k"])

lemma bit_length_small: "bit_length 0 = 0" "bit_length 1 = 1" "bit_length (Suc 0) = 1"
  by (simp_all add: bit_length.simps [of 0] bit_length.simps [of 1] bit_length.simps [of "Suc 0"])

lemmas float_eval = to_double_def scaled_def div_half_even_def round_dyadic_def trunc_dyadic_def
  bit_length_numeral bit_length_small Let_def

lemmas parse_eval = py_float_def py_int_def strip_def is_space_def is_digit_def lower_char_def
  parse_exponent_def digits_val_def digit_val_def





















section \<open>What the loops append to the trace\<close>

lemma send_cmd_eq:
  "send_cmd env path v w =
     (send_ok env (sends w) (format_cmd path v (clock_secs env (clocks w))),
      w\<lparr>sends := Suc (sends w), clocks := Suc (clocks w),
        trace := trace w @ [Send (format_cmd path v (clock_secs env (clocks w)))
                             (send_ok env (sends w) (format_cmd path v (clock_secs env (clocks w))))]\<rparr>)"
  by (simp add: send_cmd_def Let_def)

lemma tick_shape_cons: "tick_shape r evs \<Longrightarrow> tick_shape r (Send l True # evs)"
  by (cases r) auto

lemma tick_shape_append:
  "list_all is_ok_send evs1 \<Longrightarrow> tick_shape r evs2 \<Longrightarrow> tick_shape r (evs1 @ evs2)"
  by (cases r) (auto simp: butlast_append)

lemma stamped_append:
  "stamped env k evs1 \<Longrightarrow> stamped env (k + length evs1) evs2 \<Longrightarrow> stamped env k (evs1 @ evs2)"
  by (induction evs1 arbitrary: k) auto

lemma stamped_cons:
  "stamped env (Suc k) evs \<Longrightarrow> stamped env k (Send (format_cmd path v (clock_secs env k)) ok # evs)"
  by (simp del: event.inject) blast

lemma appended_send_ok:
  assumes "send_cmd env path v w = (True, w1)" "appended env r w1 w' evs"
  shows "appended env r w w' (Send (format_cmd path v (clock_secs env (clocks w))) True # evs)"
proof -
  from assms(1) have ok: "send_ok env (sends w) (format_cmd path v (clock_secs env (clocks w)))"
    and w1: "trace w1 = trace w @ [Send (format_cmd path v (clock_secs env (clocks w))) True]"
      "sends w1 = Suc (sends w)" "clocks w1 = Suc (clocks w)" "connects w1 = connects w"
    by (auto simp: send_cmd_eq)
  from assms(2) have "stamped env (Suc (clocks w)) evs" "tick_shape r evs"
    by (simp_all add: appended_def w1)
  then have "stamped env (clocks w) (Send (format_cmd path v (clock_secs env (clocks w))) True # evs)"
    "tick_shape r (Send (format_cmd path v (clock_secs env (clocks w))) True # evs)"
    by (auto intro: stamped_cons tick_shape_cons simp del: stamped.simps)
  with assms(2) w1 show ?thesis by (simp add: appended_def del: stamped.simps)
qed

lemma appended_send_failed:
  assumes "send_cmd env path v w = (False, w1)"
  shows "appended env Broke w w1 [Send (format_cmd path v (clock_secs env (clocks w))) False]"
proof -
  from assms have w1: "trace w1 = trace w @ [Send (format_cmd path v (clock_secs env (clocks w))) False]"
      "sends w1 = Suc (sends w)" "clocks w1 = Suc (clocks w)" "connects w1 = connects w"
    by (auto simp: send_cmd_eq)
  have "stamped env (clocks w) [Send (format_cmd path v (clock_secs env (clocks w))) False]"
    by (rule stamped_cons) simp
  with w1 show ?thesis by (simp add: appended_def del: stamped.simps)
qed

lemma stats_loop_appended:
  "stats_loop env bk info specs w = (r, w') \<Longrightarrow>
     \<exists>evs. appended env r w w' evs \<and> infos w' = infos w \<and> llens w' = llens w"
proof (induction specs arbitrary: w)
  case Nil
  then have "appended env r w w' []" by (simp add: appended_def)
  with Nil show ?case by auto
next
  case (Cons spec rest)
  obtain key kt where spec: "spec = (key, kt)" by (cases spec)
  show ?case
  proof (cases "info key")
    case None
    with Cons spec show ?thesis by simp
  next
    case (Some raw)
    show ?thesis
    proof (cases "apply_keytype kt raw")
      case (Inl e)
      with Cons.prems spec Some have "appended env r w w' []" "w' = w" by (auto simp: appended_def)
      then show ?thesis by auto
    next
      case (Inr v)
      obtain ok w1 where sc: "send_cmd env (bk @ key) v w = (ok, w1)"
        by (cases "send_cmd env (bk @ key) v w")
      then have same: "infos w1 = infos w" "llens w1 = llens w" by (auto simp: send_cmd_eq)
      show ?thesis
      proof (cases ok)
        case True
        with Cons.prems spec Some Inr sc have "stats_loop env bk info rest w1 = (r, w')" by simp
        from Cons.IH [OF this] obtain evs
          where "appended env r w1 w' evs" "infos w' = infos w1" "llens w' = llens w1" by blast
        with appended_send_ok [of env "bk @ key" v w w1 r w' evs] sc True same
        show ?thesis by auto
      next
        case False
        with Cons.prems spec Some Inr sc have "r = Broke" "w' = w1" by simp_all
        with appended_send_failed [of env "bk @ key" v w w1] sc False same show ?thesis by auto
      qed
    qed
  qed
qed

lemma lists_loop_appended:
  "lists_loop env host port bk keys w = (r, w') \<Longrightarrow>
     \<exists>evs. appended env r (w\<lparr>llens := llens w'\<rparr>) w' evs \<and> infos w' = infos w"
proof (induction keys arbitrary: w)
  case Nil
  then show ?case by (auto simp: appended_def)
next
  case (Cons key rest)
  let ?w0 = "w\<lparr>llens := Suc (llens w)\<rparr>"
  show ?case
  proof (cases "fetch_llen env (llens w) host port key")
    case None
    with Cons.prems show ?thesis by (auto simp: appended_def)
  next
    case (Some len)
    obtain ok w1 where sc: "send_cmd env (bk @ key) len ?w0 = (ok, w1)"
      by (cases "send_cmd env (bk @ key) len ?w0")
    show ?thesis
    proof (cases ok)
      case True
      with Cons.prems Some sc have "lists_loop env host port bk rest w1 = (r, w')" by simp
      from Cons.IH [OF this] obtain evs
        where a: "appended env r (w1\<lparr>llens := llens w'\<rparr>) w' evs" "infos w' = infos w1" by blast
      from sc True have "send_cmd env (bk @ key) len (w\<lparr>llens := llens w'\<rparr>) = (True, w1\<lparr>llens := llens w'\<rparr>)"
        by (auto simp: send_cmd_eq)
      from appended_send_ok [OF this a(1)] a(2) sc show ?thesis by (auto simp: send_cmd_eq)
    next
      case False
      with Cons.prems Some sc have rw: "r = Broke" "w' = w1" by simp_all
      from sc False rw have "send_cmd env (bk @ key) len (w\<lparr>llens := llens w'\<rparr>) = (False, w1)"
        by (auto simp: send_cmd_eq)
      from appended_send_failed [OF this] rw sc show ?thesis by (auto simp: send_cmd_eq)
    qed
  qed
qed

lemma appended_trans:
  assumes "appended env Exhausted w w1 evs1" "appended env r w1 w' evs2"
  shows "appended env r w w' (evs1 @ evs2)"
proof -
  from assms have "stamped env (clocks w) evs1" "stamped env (clocks w + length evs1) evs2"
    "list_all is_ok_send evs1" "tick_shape r evs2"
    by (simp_all add: appended_def)
  then have "stamped env (clocks w) (evs1 @ evs2)" "tick_shape r (evs1 @ evs2)"
    by (auto intro: stamped_append tick_shape_append)
  with assms show ?thesis by (simp add: appended_def)
qed

lemma appended_infos [simp]: "appended env r (w\<lparr>infos := n\<rparr>) w' evs = appended env r w w' evs"
  by (simp add: appended_def)

lemma appended_llens [simp]: "appended env r (w\<lparr>llens := n\<rparr>) w' evs = appended env r w w' evs"
  by (simp add: appended_def)

lemma lists_loop_appended':
  "lists_loop env host port bk keys w = (r, w') \<Longrightarrow> \<exists>evs. appended env r w w' evs"
  using lists_loop_appended [of env host port bk keys w r w'] by simp

text \<open>The body of the ports loop for one port, seen as a loop of one round.\<close>

lemma ports_loop_single:
  "ports_loop env a [port] w =
     (case target_body env a port w of
        (Next_port, w') \<Rightarrow> (Exhausted, w')
      | (Break_ports, w') \<Rightarrow> (Broke, w')
      | (Uncaught e, w') \<Rightarrow> (Raised e, w'))"
  by (simp split: prod.splits target_result.splits)

lemma ports_loop_cons:
  "ports_loop env a (port # rest) w =
     (case ports_loop env a [port] w of
        (Exhausted, w') \<Rightarrow> ports_loop env a rest w'
      | other \<Rightarrow> other)"
  by (simp split: prod.splits target_result.splits)


lemma after_loop_cases:
  "(case (after_loop r, w') of
      (Next_port, w') \<Rightarrow> (Exhausted, w')
    | (Break_ports, w') \<Rightarrow> (Broke, w')
    | (Uncaught e, w') \<Rightarrow> (Raised e, w')) = (r, w')"
  by (cases r) simp_all

lemma target_appended:
  assumes "ports_loop env a [port] w = (r, w')"
  shows "\<exists>evs. appended env r w w' evs"
proof (cases "fetch_info env (infos w) (redis_server a) port")
  case None
  with assms have "r = Exhausted" "w' = w\<lparr>infos := Suc (infos w)\<rparr>"
    by (simp_all add: target_body_def)
  then have "appended env r w w' []" by (simp add: appended_def)
  then show ?thesis ..
next
  case (Some info)
  let ?w1 = "w\<lparr>infos := Suc (infos w)\<rparr>"
  let ?bk = "base_key (redis_server a) port"
  show ?thesis
  proof (cases "no_server_stats a")
    case False
    obtain r0 w2 where run: "stats_loop env ?bk info stats_keys ?w1 = (r0, w2)"
      by (cases "stats_loop env ?bk info stats_keys ?w1")
    with Some False have "target_body env a port w = (after_loop r0, w2)"
      by (simp add: target_body_def)
    with assms have "r = r0" "w' = w2"
      by (simp_all only: ports_loop_single after_loop_cases prod.inject)
    with stats_loop_appended [OF run] show ?thesis by auto
  next
    case True
    show ?thesis
    proof (cases "truthy (lists_opt a)")
      case t: True
      obtain r0 w2
        where run: "lists_loop env (redis_server a) port ?bk (watched (lists_opt a)) ?w1 = (r0, w2)"
        by (cases "lists_loop env (redis_server a) port ?bk (watched (lists_opt a)) ?w1")
      with Some True t have "target_body env a port w = (after_loop r0, w2)"
        by (simp add: target_body_def)
      with assms have "r = r0" "w' = w2"
        by (simp_all only: ports_loop_single after_loop_cases prod.inject)
      with lists_loop_appended' [OF run] show ?thesis by auto
    next
      case f: False
      with assms Some True have "r = Exhausted" "w' = ?w1" by (simp_all add: target_body_def)
      then have "appended env r w w' []" by (simp add: appended_def)
      then show ?thesis ..
    qed
  qed
qed

lemma ports_loop_appended:
  "ports_loop env a ps w = (r, w') \<Longrightarrow> \<exists>evs. appended env r w w' evs"
proof (induction ps arbitrary: w)
  case Nil
  then have "appended env r w w' []" by (simp add: appended_def)
  then show ?case ..
next
  case (Cons p ps)
  obtain r1 w1 where first: "ports_loop env a [p] w = (r1, w1)"
    by (cases "ports_loop env a [p] w")
  from target_appended [OF first] obtain evs1 where a1: "appended env r1 w w1 evs1" ..
  show ?case
  proof (cases "r1 = Exhausted")
    case True
    with Cons.prems first have "ports_loop env a ps w1 = (r, w')"
      by (simp only: ports_loop_cons [of env a p ps w]) simp
    from Cons.IH [OF this] obtain evs2 where "appended env r w1 w' evs2" ..
    with a1 True have "appended env r w w' (evs1 @ evs2)" by (auto intro: appended_trans)
    then show ?thesis ..
  next
    case False
    with Cons.prems first have "r = r1" "w' = w1"
      by (simp_all only: ports_loop_cons [of env a p ps w]) (cases r1; simp)+
    with a1 show ?thesis by auto
  qed
qed

lemma stamped_nth:
  "stamped env k evs \<Longrightarrow> j < length evs \<Longrightarrow>
     \<exists>path v ok. evs ! j = Send (format_cmd path v (clock_secs env (k + j))) ok"
proof (induction evs arbitrary: k j)
  case Nil
  then show ?case by simp
next
  case (Cons ev evs)
  show ?case
  proof (cases j)
    case 0
    with Cons.prems show ?thesis by simp
  next
    case (Suc i)
    with Cons.prems have "stamped env (Suc k) evs" "i < length evs" by simp_all
    from Cons.IH [OF this] Suc show ?thesis by simp
  qed
qed

section \<open>A loop that runs to its end\<close>


lemma length_stamp [simp]: "length (stamp env k xs) = length xs"
  by (induction xs arbitrary: k) auto

lemma stats_samples_Nil [simp]: "stats_samples bk info [] = []"
  by (simp add: stats_samples_def)

lemma stats_samples_Cons:
  "stats_samples bk info ((key, kt) # rest) =
     (case info key of
        None \<Rightarrow> []
      | Some raw \<Rightarrow> (case apply_keytype kt raw of Inl e \<Rightarrow> [] | Inr v \<Rightarrow> [(bk @ key, v)]))
     @ stats_samples bk info rest"
  by (simp add: stats_samples_def)

text \<open>A stats loop that runs to its end has sent the full set of health samples.\<close>

lemma stats_loop_completed:
  "stats_loop env bk info specs w = (Exhausted, w') \<Longrightarrow>
     trace w' = trace w @ stamp env (clocks w) (stats_samples bk info specs) \<and>
     clocks w' = clocks w + length (stats_samples bk info specs) \<and>
     length (stats_samples bk info specs) = length (filter (\<lambda>key. info key \<noteq> None) (map fst specs)) \<and>
     infos w' = infos w \<and> llens w' = llens w"
proof (induction specs arbitrary: w)
  case Nil
  then show ?case by simp
next
  case (Cons spec rest)
  obtain key kt where spec: "spec = (key, kt)" by (cases spec)
  show ?case
  proof (cases "info key")
    case None
    with Cons.prems spec have "stats_loop env bk info rest w = (Exhausted, w')" by simp
    from Cons.IH [OF this] None spec show ?thesis by (simp add: stats_samples_Cons)
  next
    case (Some raw)
    with Cons.prems spec obtain v where v: "apply_keytype kt raw = Inr v"
      by (cases "apply_keytype kt raw") auto
    obtain ok w1 where sc: "send_cmd env (bk @ key) v w = (ok, w1)"
      by (cases "send_cmd env (bk @ key) v w")
    with Cons.prems spec Some v have ok: ok and run: "stats_loop env bk info rest w1 = (Exhausted, w')"
      by (cases ok; simp)+
    from sc ok have w1: "trace w1 = trace w @ [Send (format_cmd (bk @ key) v (clock_secs env (clocks w))) True]"
      "clocks w1 = Suc (clocks w)" "infos w1 = infos w" "llens w1 = llens w"
      by (auto simp: send_cmd_eq)
    from Cons.IH [OF run] w1 Some v spec show ?thesis by (simp add: stats_samples_Cons)
  qed
qed




section \<open>Runs of the examples\<close>

lemmas run_eval = target_body_def stats_keys_def send_cmd_def format_cmd_def base_key_def
  clock_secs_def trunc_dyadic_def str_eval parse_eval Let_def world0_def

lemma main_run_numeral:
  "main_run (numeral k) env a s = main_run (pred_numeral k) env a (main_step env a s)"
  by (simp add: numeral_eq_Suc)

lemmas main_eval = main_def main_run_numeral connect_round_def polling_round_def
  for_else_block_def sleep_def

lemma stats_ex:
  "stats_loop env_ex ''redis.h:2.'' info_ex stats_keys world0 =
     (Exhausted, \<lparr>connects = 0, infos = 0, llens = 0, sends = 2, clocks = 2,
        trace = [Send ''redis.h:2.connected_clients 3 100\<newline>'' True,
                 Send ''redis.h:2.used_memory 7 101\<newline>'' True]\<rparr>)"
  by (simp add: run_eval env_ex_def info_ex_def)

lemma pass_ex:
  "ports_loop env_ex args_ex [1, 2, 3] world0 =
     (Exhausted, \<lparr>connects = 0, infos = 3, llens = 0, sends = 4, clocks = 4,
        trace = [Send ''redis.h:2.connected_clients 3 100\<newline>'' True,
                 Send ''redis.h:2.used_memory 7 101\<newline>'' True,
                 Send ''redis.h:3.connected_clients 3 102\<newline>'' True,
                 Send ''redis.h:3.used_memory 7 103\<newline>'' True]\<rparr>)"
  by (simp add: run_eval env_ex_def info_ex_def args_ex_def)


lemma round_drop:
  "polling_round env_drop args_ex world0 =
     (Disconnected,
      \<lparr>connects = 0, infos = 2, llens = 0, sends = 2, clocks = 2,
         trace = [Send ''redis.h:2.connected_clients 3 100\<newline>'' True,
                  Send ''redis.h:2.used_memory 7 101\<newline>'' False,
                  Close]\<rparr>)"
  by (simp add: main_eval run_eval env_drop_def env_ex_def info_ex_def args_ex_def)

lemma coercible_info_ex: "coercible info_ex"
  by (simp add: coercible_def accepts_def stats_keys_def info_ex_def parse_eval)

section \<open>A failed send\<close>

lemma ok_not_failed: "is_ok_send ev \<Longrightarrow> \<not> is_failed_send ev"
  by (cases ev) simp_all

lemma no_failed_in_ok:
  "list_all is_ok_send evs \<Longrightarrow> i < length evs \<Longrightarrow> \<not> is_failed_send (evs ! i)"
  by (simp add: list_all_length ok_not_failed)

lemma broke_position:
  assumes "tick_shape Broke evs0" "i < length (evs0 @ [Close])" "is_failed_send ((evs0 @ [Close]) ! i)"
  shows "Suc i = length evs0"
proof (rule ccontr)
  assume neq: "Suc i \<noteq> length evs0"
  from assms(1) have ne: "evs0 \<noteq> []" and oks: "list_all is_ok_send (butlast evs0)" by simp_all
  show False
  proof (cases "i < length evs0")
    case True
    with neq have lt: "i < length (butlast evs0)" by simp
    then have "(evs0 @ [Close]) ! i = butlast evs0 ! i" using True
      by (simp add: nth_append nth_butlast)
    with no_failed_in_ok [OF oks lt] assms(3) show False by simp
  next
    case False
    with assms(2) have "i = length evs0" by simp
    with assms(3) show False by simp
  qed
qed

lemma connect_round_trace:
  "\<exists>rest. trace (snd (connect_round env a w)) =
     trace w @ Connect (carbon_server a) (carbon_port a) (connect_ok env (connects w)) # rest"
  by (simp add: connect_round_def sleep_def Let_def)

text \<open>
  C1. If, in one round of the polling loop, the event at position \<open>i\<close> of what the
  round appends to the trace is a failed send, then nothing of the tick follows it: the
  round appends exactly one more event, the close of the socket; every event before it
  is a successful send; the scheduler is back in the disconnected state; and the next
  thing the process does is a connect to the sink.
\<close>

theorem send_failure_aborts_tick:
  assumes "polling_round env a w = (st, w')"
    and "trace w' = trace w @ evs"
    and "i < length evs"
    and "is_failed_send (evs ! i)"
  shows "st = Disconnected \<and> length evs = i + 2 \<and> evs ! (i + 1) = Close \<and>
         list_all is_ok_send (take i evs) \<and>
         (\<exists>rest. trace (snd (main_step env a (st, w'))) =
            trace w' @ Connect (carbon_server a) (carbon_port a) (connect_ok env (connects w')) # rest)"
proof -
  obtain r w1 where pass: "ports_loop env a (redis_ports a) w = (r, w1)"
    by (cases "ports_loop env a (redis_ports a) w")
  from ports_loop_appended [OF pass] obtain evs0 where app: "appended env r w w1 evs0" ..
  then have tr1: "trace w1 = trace w @ evs0" and shape: "tick_shape r evs0"
    by (simp_all add: appended_def)
  show ?thesis
  proof (cases r)
    case Exhausted
    with shape have oks: "list_all is_ok_send evs0" by simp
    from assms(1) pass Exhausted have "trace w' = trace w1 \<or> trace w' = trace w1 @ [Sleep (interval a)]"
      by (auto simp: polling_round_def for_else_block_def sleep_def split: if_splits)
    with tr1 assms(2) have "evs = evs0 \<or> evs = evs0 @ [Sleep (interval a)]" by auto
    then have "\<not> is_failed_send (evs ! i)"
    proof
      assume "evs = evs0"
      with oks assms(3) show ?thesis by (simp add: no_failed_in_ok)
    next
      assume e: "evs = evs0 @ [Sleep (interval a)]"
      show ?thesis
      proof (cases "i < length evs0")
        case True
        with e oks show ?thesis by (simp add: nth_append no_failed_in_ok)
      next
        case False
        with e assms(3) have "i = length evs0" by simp
        with e show ?thesis by simp
      qed
    qed
    with assms(4) show ?thesis by simp
  next
    case (Raised e)
    with shape have oks: "list_all is_ok_send evs0" by simp
    from assms(1) pass Raised have "w' = w1"
      by (simp add: polling_round_def for_else_block_def)
    with tr1 assms(2) have "evs = evs0" by simp
    with oks assms(3, 4) show ?thesis by (simp add: no_failed_in_ok)
  next
    case Broke
    from assms(1) pass Broke have st: "st = Disconnected" and w': "w' = w1\<lparr>trace := trace w1 @ [Close]\<rparr>"
      by (simp_all add: polling_round_def for_else_block_def)
    with tr1 assms(2) have evs: "evs = evs0 @ [Close]" by simp
    from shape Broke have sh: "tick_shape Broke evs0" by simp
    from broke_position [OF sh] assms(3, 4) evs have pos: "Suc i = length evs0" by simp
    from sh have "list_all is_ok_send (butlast evs0)" by simp
    moreover from pos have "i = length evs0 - 1" by simp
    with pos evs have "take i evs = butlast evs0" by (simp add: butlast_conv_take)
    ultimately have "list_all is_ok_send (take i evs)" by simp
    moreover from pos evs have "length evs = i + 2" "evs ! (i + 1) = Close"
      by (simp_all add: nth_append)
    moreover from st have "main_step env a (st, w') = connect_round env a w'" by simp
    ultimately show ?thesis using st connect_round_trace [of env a w'] by simp
  qed
qed

theorem send_failure_aborts_tick_witness:
  "\<exists>w' evs. polling_round env_drop args_ex world0 = (Disconnected, w') \<and>
     trace w' = trace world0 @ evs \<and> 1 < length evs \<and> is_failed_send (evs ! 1) \<and>
     length evs = 3 \<and> evs ! 2 = Close \<and> list_all is_ok_send (take 1 evs) \<and>
     (\<exists>rest. trace (snd (main_step env_drop args_ex (Disconnected, w'))) =
        trace w' @ Connect ''c'' 2003 True # rest)"
proof -
  let ?evs = "[Send ''redis.h:2.connected_clients 3 100\<newline>'' True,
               Send ''redis.h:2.used_memory 7 101\<newline>'' False, Close]"
  let ?w = "\<lparr>connects = 0, infos = 2, llens = 0, sends = 2, clocks = 2, trace = ?evs\<rparr>"
  have tr: "trace ?w = trace world0 @ ?evs" by (simp add: world0_def)
  have i: "1 < length ?evs" by simp
  have f: "is_failed_send (?evs ! 1)" by simp
  from send_failure_aborts_tick [OF round_drop tr i f]
  have "length ?evs = 3 \<and> ?evs ! 2 = Close \<and> list_all is_ok_send (take 1 ?evs) \<and>
     (\<exists>rest. trace (snd (main_step env_drop args_ex (Disconnected, ?w))) =
        trace ?w @ Connect ''c'' 2003 True # rest)"
    by (simp add: args_ex_def env_drop_def env_ex_def)
  with round_drop tr i f show ?thesis by blast
qed

section \<open>Health sampling excludes list sampling\<close>

text \<open>
  C5. With server stats enabled, the body of the ports loop behaves as if no list
  were watched, and it never calls \<open>llen\<close>: the list branch is not executed for that
  target in that tick.
\<close>

theorem stats_exclude_lists:
  assumes "\<not> no_server_stats a"
  shows "target_body env a port w = target_body env (a\<lparr>lists_opt := None\<rparr>) port w \<and>
         llens (snd (target_body env a port w)) = llens w"
proof -
  have same: "target_body env a port w = target_body env (a\<lparr>lists_opt := None\<rparr>) port w"
    using assms by (simp add: target_body_def Let_def split: option.splits)
  have "llens (snd (target_body env a port w)) = llens w"
  proof (cases "fetch_info env (infos w) (redis_server a) port")
    case None
    then show ?thesis by (simp add: target_body_def)
  next
    case (Some info)
    obtain r0 w2 where run: "stats_loop env (base_key (redis_server a) port) info stats_keys
        (w\<lparr>infos := Suc (infos w)\<rparr>) = (r0, w2)"
      by (cases "stats_loop env (base_key (redis_server a) port) info stats_keys
        (w\<lparr>infos := Suc (infos w)\<rparr>)")
    from stats_loop_appended [OF run] have "llens w2 = llens w" by auto
    with Some assms run show ?thesis by (simp add: target_body_def)
  qed
  with same show ?thesis ..
qed

theorem stats_exclude_lists_witness:
  "truthy (lists_opt args_ex) \<and> \<not> no_server_stats args_ex \<and>
   target_body env_ex args_ex 2 world0 = target_body env_ex (args_ex\<lparr>lists_opt := None\<rparr>) 2 world0 \<and>
   llens (snd (target_body env_ex args_ex 2 world0)) = llens world0"
proof -
  have h: "\<not> no_server_stats args_ex" by (simp add: args_ex_def)
  have "truthy (lists_opt args_ex)" by (simp add: args_ex_def)
  with stats_exclude_lists [OF h, of env_ex 2 world0] h show ?thesis by blast
qed

section \<open>An unreachable target\<close>



section \<open>Missing keys\<close>

text \<open>A key that \<open>info\<close> lacks is passed over, whatever else happens in the loop.\<close>

lemma missing_key_step:
  "info key = None \<Longrightarrow>
     stats_loop env bk info ((key, kt) # rest) w = stats_loop env bk info rest w"
  by simp

lemma stats_loop_present:
  "stats_loop env bk info specs w =
     stats_loop env bk info (filter (\<lambda>(key, kt). info key \<noteq> None) specs) w"
proof (induction specs arbitrary: w)
  case Nil
  show ?case by simp
next
  case (Cons spec rest)
  obtain key kt where spec: "spec = (key, kt)" by (cases spec)
  show ?case
  proof (cases "info key")
    case None
    with Cons.IH spec show ?thesis by simp
  next
    case (Some raw)
    with Cons.IH spec show ?thesis
      by (auto split: sum.splits prod.splits bool.splits)
  qed
qed

lemma present_count:
  "length (filter (\<lambda>key. info key \<noteq> None) keys) =
     length keys - length (filter (\<lambda>key. info key = None) keys)"
  using sum_length_filter_compl [of "\<lambda>key. info key = None" keys] by simp

text \<open>
  C7. A key of the table that \<open>info\<close> lacks is passed over without any effect: the
  loop over the table is the loop over the entries whose keys are present, whatever
  the sink and the values do. A loop that runs to its end has sent exactly the samples
  of the present keys, in the order of the table: 15 less one for every key of the
  table that \<open>info\<close> lacks.
\<close>

theorem missing_keys_skipped:
  "stats_loop env bk info stats_keys w =
     stats_loop env bk info (filter (\<lambda>(key, kt). info key \<noteq> None) stats_keys) w \<and>
   (\<forall>w'. stats_loop env bk info stats_keys w = (Exhausted, w') \<longrightarrow>
      trace w' = trace w @ stamp env (clocks w) (stats_samples bk info stats_keys) \<and>
      length (stats_samples bk info stats_keys) =
        15 - length (filter (\<lambda>key. info key = None) (map fst stats_keys)))"
proof (intro conjI allI impI)
  show "stats_loop env bk info stats_keys w =
     stats_loop env bk info (filter (\<lambda>(key, kt). info key \<noteq> None) stats_keys) w"
    by (rule stats_loop_present)
next
  fix w'
  assume run: "stats_loop env bk info stats_keys w = (Exhausted, w')"
  from stats_loop_completed [OF run]
  show "trace w' = trace w @ stamp env (clocks w) (stats_samples bk info stats_keys)" by simp
  have "length (map fst stats_keys) = 15" by (simp add: stats_keys_def)
  with present_count [of info "map fst stats_keys"]
  have "length (filter (\<lambda>key. info key \<noteq> None) (map fst stats_keys)) =
      15 - length (filter (\<lambda>key. info key = None) (map fst stats_keys))"
    by (simp only:)
  with stats_loop_completed [OF run]
  show "length (stats_samples bk info stats_keys) =
        15 - length (filter (\<lambda>key. info key = None) (map fst stats_keys))"
    by (simp only:)
qed

theorem missing_keys_skipped_witness:
  "\<exists>w'. stats_loop env_ex ''redis.h:2.'' info_ex stats_keys world0 = (Exhausted, w') \<and>
     length (filter (\<lambda>key. info_ex key = None) (map fst stats_keys)) = 13 \<and>
     length (stats_samples ''redis.h:2.'' info_ex stats_keys) = 2 \<and>
     trace w' = [Send ''redis.h:2.connected_clients 3 100\<newline>'' True,
                 Send ''redis.h:2.used_memory 7 101\<newline>'' True]"
proof -
  have miss: "length (filter (\<lambda>key. info_ex key = None) (map fst stats_keys)) = 13"
    by (simp add: stats_keys_def info_ex_def)
  from missing_keys_skipped [of env_ex "''redis.h:2.''" info_ex world0] stats_ex
  have "length (stats_samples ''redis.h:2.'' info_ex stats_keys) =
      15 - length (filter (\<lambda>key. info_ex key = None) (map fst stats_keys))"
    by blast
  with miss have "length (stats_samples ''redis.h:2.'' info_ex stats_keys) = 2" by simp
  with miss stats_ex show ?thesis by simp
qed

section \<open>One clock reading for each line\<close>

text \<open>
  \<open>trunc_dyadic m e\<close> is \<open>m * 2 ^ e\<close> with its fraction dropped: the integer part for
  a reading that is not negative, and symmetric about zero.
\<close>

lemma trunc_dyadic_whole: "0 \<le> e \<Longrightarrow> trunc_dyadic m e = m * 2 ^ nat e"
  by (simp add: trunc_dyadic_def)

lemma trunc_dyadic_floor:
  assumes "e < 0" "0 \<le> m"
  shows "trunc_dyadic m e * 2 ^ nat (- e) \<le> m \<and> m < (trunc_dyadic m e + 1) * 2 ^ nat (- e)"
proof -
  let ?d = "(2::int) ^ nat (- e)"
  have pos: "0 < ?d" by simp
  from assms have t: "trunc_dyadic m e = m div ?d"
    by (cases "m = 0") (simp_all add: trunc_dyadic_def)
  have "m div ?d * ?d + m mod ?d = m" by (rule div_mult_mod_eq)
  moreover from pos have "0 \<le> m mod ?d" "m mod ?d < ?d"
    by (rule pos_mod_sign, rule pos_mod_bound)
  moreover have "(m div ?d + 1) * ?d = m div ?d * ?d + ?d" by (simp add: distrib_right)
  ultimately have "m div ?d * ?d \<le> m \<and> m < (m div ?d + 1) * ?d" by linarith
  with t show ?thesis by (simp only:)
qed

lemma trunc_dyadic_minus: "trunc_dyadic (- m) e = - trunc_dyadic m e"
  by (simp add: trunc_dyadic_def)

lemma trunc_dyadic_examples: "trunc_dyadic 201 (- 1) = 100" "trunc_dyadic (- 201) (- 1) = - 100"
  by (simp_all add: trunc_dyadic_def)

text \<open>
  C10. In one pass over the targets, the \<open>j\<close>-th line sent carries the \<open>j\<close>-th clock
  reading taken in the pass, truncated to an integer: every line has a reading of its
  own and the pass takes as many readings as it sends lines. In the example the four
  lines of one tick carry four different timestamps.
\<close>

theorem timestamp_per_sample:
  assumes "ports_loop env a ps w = (r, w')"
  shows "\<exists>evs. trace w' = trace w @ evs \<and> clocks w' = clocks w + length evs \<and>
           (\<forall>j<length evs. \<exists>path v ok.
              evs ! j = Send (format_cmd path v (clock_secs env (clocks w + j))) ok)"
proof -
  from ports_loop_appended [OF assms] obtain evs where app: "appended env r w w' evs" ..
  then have "stamped env (clocks w) evs" by (simp add: appended_def)
  then have "\<forall>j<length evs. \<exists>path v ok.
              evs ! j = Send (format_cmd path v (clock_secs env (clocks w + j))) ok"
    by (auto dest: stamped_nth)
  with app show ?thesis by (auto simp: appended_def)
qed

theorem timestamp_per_sample_witness:
  "\<exists>w'. ports_loop env_ex args_ex [1, 2, 3] world0 = (Exhausted, w') \<and>
     trace w' = [Send ''redis.h:2.connected_clients 3 100\<newline>'' True,
                 Send ''redis.h:2.used_memory 7 101\<newline>'' True,
                 Send ''redis.h:3.connected_clients 3 102\<newline>'' True,
                 Send ''redis.h:3.used_memory 7 103\<newline>'' True] \<and>
     (\<exists>evs. trace w' = trace world0 @ evs \<and> clocks w' = clocks world0 + length evs \<and>
        (\<forall>j<length evs. \<exists>path v ok.
           evs ! j = Send (format_cmd path v (clock_secs env_ex (clocks world0 + j))) ok))"
  using timestamp_per_sample [OF pass_ex] pass_ex by simp

section \<open>Uncaught exceptions\<close>

lemma stats_loop_no_raise:
  "list_all (accepts info) specs \<Longrightarrow> fst (stats_loop env bk info specs w) \<noteq> Raised e"
proof (induction specs arbitrary: w)
  case Nil
  show ?case by simp
next
  case (Cons spec rest)
  obtain key kt where spec: "spec = (key, kt)" by (cases spec)
  from Cons.prems have rest_ok: "list_all (accepts info) rest" by simp
  show ?case
  proof (cases "info key")
    case None
    with Cons.IH [OF rest_ok] spec show ?thesis by simp
  next
    case (Some raw)
    with Cons.prems spec obtain v where v: "apply_keytype kt raw = Inr v"
      by (auto simp: accepts_def split: sum.splits)
    obtain ok w1 where sc: "send_cmd env (bk @ key) v w = (ok, w1)"
      by (cases "send_cmd env (bk @ key) v w")
    with Cons.IH [OF rest_ok, of w1] spec Some v show ?thesis by (cases ok) simp_all
  qed
qed

lemma lists_loop_no_raise:
  assumes "\<forall>k host port key. fetch_llen env k host port key \<noteq> None"
  shows "fst (lists_loop env host port bk keys w) \<noteq> Raised e"
proof (induction keys arbitrary: w)
  case Nil
  show ?case by simp
next
  case (Cons key rest)
  from assms have "fetch_llen env (llens w) host port key \<noteq> None" by blast
  then obtain len where len: "fetch_llen env (llens w) host port key = Some len"
    by (cases "fetch_llen env (llens w) host port key") auto
  obtain ok w1 where sc: "send_cmd env (bk @ key) len (w\<lparr>llens := Suc (llens w)\<rparr>) = (ok, w1)"
    by (cases "send_cmd env (bk @ key) len (w\<lparr>llens := Suc (llens w)\<rparr>)")
  with Cons.IH [of w1] len show ?case by (cases ok) simp_all
qed

lemma after_loop_uncaught: "after_loop r = Uncaught e \<longleftrightarrow> r = Raised e"
  by (cases r) auto

lemma target_body_no_raise:
  assumes "\<forall>k host port info. fetch_info env k host port = Some info \<longrightarrow> coercible info"
    and "\<forall>k host port key. fetch_llen env k host port key \<noteq> None"
  shows "fst (target_body env a port w) \<noteq> Uncaught e"
proof (cases "fetch_info env (infos w) (redis_server a) port")
  case None
  then show ?thesis by (simp add: target_body_def)
next
  case (Some info)
  with assms(1) have "list_all (accepts info) stats_keys" by (simp add: coercible_def)
  from stats_loop_no_raise [OF this]
  have s: "\<And>bk w. fst (stats_loop env bk info stats_keys w) \<noteq> Raised e" .
  from lists_loop_no_raise [OF assms(2)]
  have l: "\<And>host port bk keys w. fst (lists_loop env host port bk keys w) \<noteq> Raised e" .
  from Some show ?thesis
    using s [of "base_key (redis_server a) port" "w\<lparr>infos := Suc (infos w)\<rparr>"]
      l [of "redis_server a" port "base_key (redis_server a) port" "watched (lists_opt a)"
           "w\<lparr>infos := Suc (infos w)\<rparr>"]
    by (simp add: target_body_def Let_def after_loop_uncaught case_prod_beta)
qed

lemma ports_loop_no_raise:
  assumes "\<forall>k host port info. fetch_info env k host port = Some info \<longrightarrow> coercible info"
    and "\<forall>k host port key. fetch_llen env k host port key \<noteq> None"
  shows "fst (ports_loop env a ps w) \<noteq> Raised e"
proof (induction ps arbitrary: w)
  case Nil
  show ?case by simp
next
  case (Cons p ps)
  obtain t w1 where tb: "target_body env a p w = (t, w1)" by (cases "target_body env a p w")
  with target_body_no_raise [OF assms, of a p w e] have "t \<noteq> Uncaught e" by simp
  with tb Cons.IH [of w1] show ?case by (cases t) simp_all
qed

lemma main_step_no_crash:
  assumes "\<forall>k host port info. fetch_info env k host port = Some info \<longrightarrow> coercible info"
    and "\<forall>k host port key. fetch_llen env k host port key \<noteq> None"
    and "0 \<le> interval a \<and> interval a \<le> max_sleep env \<and> 2 \<le> max_sleep env"
    and "fst s \<noteq> Crashed e"
  shows "fst (main_step env a s) \<noteq> Crashed e"
proof (cases s)
  case (Pair st w)
  show ?thesis
  proof (cases st)
    case Disconnected
    with Pair assms(3) show ?thesis by (simp add: connect_round_def sleep_def Let_def)
  next
    case Connected_Polling
    obtain r w1 where pass: "ports_loop env a (redis_ports a) w = (r, w1)"
      by (cases "ports_loop env a (redis_ports a) w")
    with ports_loop_no_raise [OF assms(1, 2), of a "redis_ports a" w e] have "r \<noteq> Raised e" by simp
    with Pair Connected_Polling pass assms(3) show ?thesis
      by (cases r) (simp_all add: polling_round_def for_else_block_def sleep_def)
  next
    case Exited
    with Pair show ?thesis by simp
  next
    case (Crashed e')
    with Pair assms(4) show ?thesis by simp
  qed
qed

text \<open>
  C4, as amended. If every value present under a key of the table is accepted by the
  key's callable, no \<open>llen\<close> call raises, and \<open>time.sleep\<close> takes the two seconds of
  the back-off and the interval, then no run of \<open>main\<close> ends in an uncaught exception,
  whatever the sink and the \<open>info\<close> calls do: refused connects, refused lines, failed
  \<open>info\<close> calls and missing keys are all survived.
\<close>

theorem handled_failures_never_fatal:
  assumes "\<forall>k host port info. fetch_info env k host port = Some info \<longrightarrow> coercible info"
    and "\<forall>k host port key. fetch_llen env k host port key \<noteq> None"
    and "0 \<le> interval a \<and> interval a \<le> max_sleep env \<and> 2 \<le> max_sleep env"
  shows "fst (main n env a) \<noteq> Crashed e"
proof -
  have "fst s \<noteq> Crashed e \<Longrightarrow> fst (main_run n env a s) \<noteq> Crashed e" for s
  proof (induction n arbitrary: s)
    case 0
    then show ?case by simp
  next
    case (Suc n)
    from main_step_no_crash [OF assms Suc.prems] have "fst (main_step env a s) \<noteq> Crashed e" .
    from Suc.IH [OF this] show ?case by simp
  qed
  then show ?thesis by (simp add: main_def)
qed

theorem handled_failures_never_fatal_witness:
  "fst (main 4 env_flaky args_ex) \<noteq> Crashed ValueError \<and>
   trace (snd (main 4 env_flaky args_ex)) =
     [Connect ''c'' 2003 False, Sleep 2, Connect ''c'' 2003 True,
      Send ''redis.h:2.connected_clients 3 100\<newline>'' True,
      Send ''redis.h:2.used_memory 7 101\<newline>'' False,
      Close, Connect ''c'' 2003 True]"
proof -
  have 1: "\<forall>k host port info. fetch_info env_flaky k host port = Some info \<longrightarrow> coercible info"
    by (simp add: env_flaky_def env_ex_def coercible_info_ex)
  have 2: "\<forall>k host port key. fetch_llen env_flaky k host port key \<noteq> None"
    by (simp add: env_flaky_def env_ex_def)
  have 3: "0 \<le> interval args_ex \<and> interval args_ex \<le> max_sleep env_flaky \<and> 2 \<le> max_sleep env_flaky"
    by (simp add: args_ex_def env_flaky_def env_ex_def)
  have "trace (snd (main 4 env_flaky args_ex)) =
     [Connect ''c'' 2003 False, Sleep 2, Connect ''c'' 2003 True,
      Send ''redis.h:2.connected_clients 3 100\<newline>'' True,
      Send ''redis.h:2.used_memory 7 101\<newline>'' False,
      Close, Connect ''c'' 2003 True]"
    by (simp add: main_eval run_eval env_flaky_def env_ex_def info_ex_def args_ex_def)
  with handled_failures_never_fatal [OF 1 2 3, of 4 ValueError] show ?thesis by simp
qed

text \<open>
  The coercion of a present value stands outside every handler: a value that its
  callable rejects (here \<open>nan\<close>, which \<open>int\<close> refuses) ends the process.
\<close>

theorem uncaught_coercion_counterexample:
  "fst (main 2 env_nan args_ex) = Crashed ValueError"
  by (simp add: main_eval run_eval env_nan_def env_ex_def info_nan_def args_ex_def float_eval)

text \<open>
  The \<open>llen\<close> call stands outside every handler too, unlike the \<open>info\<close> call before
  it.
\<close>

lemma llen_raise_uncaught: "fst (main 2 env_llen args_lists) = Crashed StoreError"
  by (simp add: main_eval run_eval env_llen_def env_ex_def info_ex_def args_lists_def args_ex_def)

section \<open>The \<open>--once\<close> flag\<close>

text \<open>
  The block before \<open>if args.once\<close> never falls through, so \<open>sys.exit()\<close> is never
  reached and no run of \<open>main\<close> exits.
\<close>

lemma for_else_block_signal: "fst (for_else_block env a w) \<noteq> Sig_fallthrough"
  by (simp add: for_else_block_def split: prod.splits loop_result.splits sum.splits)

lemma main_step_never_exits: "fst s \<noteq> Exited \<Longrightarrow> fst (main_step env a s) \<noteq> Exited"
proof (cases s)
  case (Pair st w)
  assume "fst s \<noteq> Exited"
  with Pair show ?thesis
    using for_else_block_signal [of env a w]
    by (cases st)
       (auto simp: connect_round_def polling_round_def sleep_def Let_def
          split: prod.splits signal.splits)
qed

lemma main_never_exits: "fst (main n env a) \<noteq> Exited"
proof -
  have "fst s \<noteq> Exited \<Longrightarrow> fst (main_run n env a s) \<noteq> Exited" for s
    by (induction n arbitrary: s) (simp_all add: main_step_never_exits)
  then show ?thesis by (simp add: main_def)
qed

text \<open>
  C2. With \<open>--once\<close> set and everything reachable, the process does not stop after the
  first pass: it sleeps and samples the target a second time.
\<close>

theorem once_flag_second_tick:
  "once args_ex \<and>
   main 3 env_ex (args_ex\<lparr>redis_ports := [2]\<rparr>) =
     (Connected_Polling,
      \<lparr>connects = 1, infos = 2, llens = 0, sends = 4, clocks = 4,
         trace = [Connect ''c'' 2003 True,
                  Send ''redis.h:2.connected_clients 3 100\<newline>'' True,
                  Send ''redis.h:2.used_memory 7 101\<newline>'' True,
                  Sleep 10,
                  Send ''redis.h:2.connected_clients 3 102\<newline>'' True,
                  Send ''redis.h:2.used_memory 7 103\<newline>'' True,
                  Sleep 10]\<rparr>)"
  by (simp add: main_eval run_eval env_ex_def info_ex_def args_ex_def)

section \<open>The path of a list sample\<close>

text \<open>
  C3. With \<open>--no-server-stats --lists q\<close>, the line sent for the list \<open>q\<close> of the store
  \<open>h:2\<close> has the path \<open>redis.h:2.q\<close>, without the segment \<open>list.\<close>.
\<close>

theorem list_path_without_segment:
  "target_body env_ex args_lists 2 world0 =
     (Next_port,
      \<lparr>connects = 0, infos = 1, llens = 1, sends = 1, clocks = 1,
         trace = [Send ''redis.h:2.q 5 100\<newline>'' True]\<rparr>)"
  by (simp add: run_eval env_ex_def args_lists_def args_ex_def)

end
